theory Spec2Isabelle
  imports Main
begin

section \<open>Regular expressions as the code uses them\<close>

text \<open>
  \<^verbatim>\<open>floss/utils.py\<close> filters through four patterns compiled with Python's
  \<^verbatim>\<open>re\<close> module and applied with \<^verbatim>\<open>re.sub\<close>. A pattern is a value of
  the type below; the constructors are the pattern syntax the four patterns use.
  Python's \<^verbatim>\<open>bytes\<close> elements and the characters of the extracted strings are
  both modelled by \<^typ>\<open>char\<close>, the type of eight-bit characters.
\<close>

type_synonym byte = char
type_synonym bytes = "byte list"

datatype 'a rx =
    Eps                       \<comment> \<open>the empty pattern\<close>
  | Lit 'a                    \<comment> \<open>a literal character\<close>
  | Dot                       \<comment> \<open>\<^verbatim>\<open>.\<close>: any character but the newline (no DOTALL flag)\<close>
  | Cls "'a list"             \<comment> \<open>\<^verbatim>\<open>[...]\<close>: one character of a class\<close>
  | Bol                       \<comment> \<open>\<^verbatim>\<open>^\<close>: start of the subject (no MULTILINE flag)\<close>
  | Eol                       \<comment> \<open>\<^verbatim>\<open>$\<close>: end of the subject, or just before a final newline\<close>
  | Seq "'a rx" "'a rx"       \<comment> \<open>concatenation\<close>
  | Alt "'a rx" "'a rx"       \<comment> \<open>\<^verbatim>\<open>r|s\<close>: the left branch is tried first\<close>
  | Opt "'a rx"               \<comment> \<open>\<^verbatim>\<open>r?\<close>, greedy\<close>
  | Rep nat "'a rx"           \<comment> \<open>\<^verbatim>\<open>r{k,}\<close>, greedy; \<^verbatim>\<open>r*\<close> is \<^verbatim>\<open>r{0,}\<close>\<close>
  | Grp nat "'a rx"           \<comment> \<open>\<^verbatim>\<open>(r)\<close>: capturing group number k\<close>
  | Bref nat                  \<comment> \<open>\<^verbatim>\<open>\k\<close>: the text captured by group k\<close>

text \<open>
  A matcher state is the rest of the subject still to be read, with the groups captured
  so far. \<open>rx_run\<close> returns every state in which the pattern can stop, in the order in
  which a backtracking matcher finds them: the head of the list is the match Python reports.
\<close>

type_synonym 'a st = "'a list \<times> (nat \<rightharpoonup> 'a list)"

primrec iter :: "('s \<Rightarrow> 's list) \<Rightarrow> nat \<Rightarrow> 's \<Rightarrow> 's list" where
  "iter m 0 st = [st]"
| "iter m (Suc k) st = concat (map (iter m k) (m st))"

text \<open>
  The greedy loop behind \<^verbatim>\<open>r{k,}\<close>: one more round of the body is tried before
  stopping. A round that reads nothing ends the loop. Every other round shortens the
  rest, so a fuel above the length of the rest is never used up.
\<close>

primrec star :: "('a st \<Rightarrow> 'a st list) \<Rightarrow> nat \<Rightarrow> 'a st \<Rightarrow> 'a st list" where
  "star m 0 st = [st]"
| "star m (Suc f) st =
     concat (map (\<lambda>st'. if length (fst st') < length (fst st) then star m f st' else [st'])
                 (m st)) @ [st]"

fun rx_run :: "'a \<Rightarrow> nat \<Rightarrow> 'a rx \<Rightarrow> 'a st \<Rightarrow> 'a st list" where
  "rx_run nl n Eps st = [st]"
| "rx_run nl n (Lit c) (s, g) =
     (case s of [] \<Rightarrow> [] | x # t \<Rightarrow> if x = c then [(t, g)] else [])"
| "rx_run nl n Dot (s, g) =
     (case s of [] \<Rightarrow> [] | x # t \<Rightarrow> if x \<noteq> nl then [(t, g)] else [])"
| "rx_run nl n (Cls cs) (s, g) =
     (case s of [] \<Rightarrow> [] | x # t \<Rightarrow> if x \<in> set cs then [(t, g)] else [])"
| "rx_run nl n Bol (s, g) = (if length s = n then [(s, g)] else [])"
| "rx_run nl n Eol (s, g) = (if s = [] \<or> s = [nl] then [(s, g)] else [])"
| "rx_run nl n (Seq r1 r2) st = concat (map (rx_run nl n r2) (rx_run nl n r1 st))"
| "rx_run nl n (Alt r1 r2) st = rx_run nl n r1 st @ rx_run nl n r2 st"
| "rx_run nl n (Opt r) st = rx_run nl n r st @ [st]"
| "rx_run nl n (Rep k r) st =
     concat (map (\<lambda>st'. star (rx_run nl n r) (Suc (length (fst st'))) st')
                 (iter (rx_run nl n r) k st))"
| "rx_run nl n (Grp k r) (s, g) =
     map (\<lambda>(s', g'). (s', g'(k \<mapsto> take (length s - length s') s))) (rx_run nl n r (s, g))"
| "rx_run nl n (Bref k) (s, g) =
     (case g k of
        None \<Rightarrow> []
      | Some w \<Rightarrow> if take (length w) s = w then [(drop (length w) s, g)] else [])"

text \<open>
  \<open>rx_match nl n r s\<close>: the pattern tried at the position where \<open>s\<close> is the rest of a
  subject of length \<open>n\<close>; the result is the rest after the match.
\<close>

definition rx_match :: "'a \<Rightarrow> nat \<Rightarrow> 'a rx \<Rightarrow> 'a list \<Rightarrow> 'a list option" where
  "rx_match nl n r s =
     (case rx_run nl n r (s, Map.empty) of [] \<Rightarrow> None | (s', g) # _ \<Rightarrow> Some s')"

text \<open>
  \<^verbatim>\<open>re.sub(pattern, repl, subject)\<close> with the default count: the subject is scanned
  from the left, every match is replaced by \<open>repl\<close> and the scan goes on behind it; a
  character at which nothing matches is copied. After an empty match the next character
  is copied and the scan goes on behind it.
\<close>

fun rx_scan :: "'a \<Rightarrow> nat \<Rightarrow> 'a rx \<Rightarrow> 'a list \<Rightarrow> 'a list \<Rightarrow> 'a list" where
  "rx_scan nl n r repl [] =
     (case rx_match nl n r [] of None \<Rightarrow> [] | Some s' \<Rightarrow> repl)"
| "rx_scan nl n r repl (x # t) =
     (case rx_match nl n r (x # t) of
        None \<Rightarrow> x # rx_scan nl n r repl t
      | Some s' \<Rightarrow>
          if length s' < length (x # t) then repl @ rx_scan nl n r repl s'
          else repl @ x # rx_scan nl n r repl t)"

definition re_sub :: "'a \<Rightarrow> 'a rx \<Rightarrow> 'a list \<Rightarrow> 'a list \<Rightarrow> 'a list" where
  "re_sub nl r repl s = rx_scan nl (length s) r repl s"

text \<open>Pattern syntax: a literal word, and an alternation of several branches.\<close>

primrec word :: "'a list \<Rightarrow> 'a rx" where
  "word [] = Eps"
| "word (c # cs) = Seq (Lit c) (word cs)"

fun alts :: "'a rx list \<Rightarrow> 'a rx" where
  "alts [] = Cls []"
| "alts [r] = r"
| "alts (r # rs) = Alt r (alts rs)"

primrec seqs :: "'a rx list \<Rightarrow> 'a rx" where
  "seqs [] = Eps"
| "seqs (r # rs) = Seq r (seqs rs)"

text \<open>
  \<open>consumes r\<close>: by its shape, every match of \<open>r\<close> reads at least one character. It
  holds of the four patterns of the code, so none of them has an empty match.
\<close>

fun consumes :: "'a rx \<Rightarrow> bool" where
  "consumes (Lit c) = True"
| "consumes Dot = True"
| "consumes (Cls cs) = True"
| "consumes (Seq r1 r2) = (consumes r1 \<or> consumes r2)"
| "consumes (Alt r1 r2) = (consumes r1 \<and> consumes r2)"
| "consumes (Rep k r) = (0 < k \<and> consumes r)"
| "consumes (Grp k r) = consumes r"
| "consumes r = False"

definition newline :: char where
  "newline = CHR 0x0A"


section \<open>The filters of \<^verbatim>\<open>floss/utils.py\<close>\<close>

subsection \<open>The denylist\<close>

definition FP_STRINGS :: "string list" where
  "FP_STRINGS =
     [''R6016'',
      ''Program: '',
      ''Runtime Error!'',
      ''<program name unknown>'',
      ''- floating point not loaded'',
      ''Program: <program name unknown>'',
      ''- not enough space for thread data'',
      '' !'' @ [CHR 0x22] @ ''#$%&'' @ [CHR 0x27] @ ''()*+,-./0123456789:;<=>?@''
        @ ''ABCDEFGHIJKLMNOPQRSTUVWXYZ['' @ [CHR 0x5C] @ '']^_'' @ [CHR 0x60]
        @ ''abcdefghijklmnopqrstuvwxyz{|}~'']"

subsection \<open>The byte-level pre-filter\<close>

text \<open>\<^verbatim>\<open>FP_FILTER_REP_BYTES = re.compile(rb"(.)\1{3,}")\<close>\<close>

definition FP_FILTER_REP_BYTES :: "byte rx" where
  "FP_FILTER_REP_BYTES = Seq (Grp 1 Dot) (Rep 3 (Bref 1))"

text \<open>\<^verbatim>\<open>FP_STACK_FILTER_1 = rb"...VA.*\x00\x00\x00\x00"\<close>\<close>

definition FP_STACK_FILTER_1 :: "byte rx" where
  "FP_STACK_FILTER_1 =
     seqs [Dot, Dot, Dot, word ''VA'', Rep 0 Dot, word [CHR 0x00, CHR 0x00, CHR 0x00, CHR 0x00]]"

definition strip_bytes :: "bytes \<Rightarrow> bool \<Rightarrow> bytes" where
  "strip_bytes b enabled =
     (if \<not> enabled then b
      else
        let b = re_sub newline FP_FILTER_REP_BYTES [CHR 0x00, CHR 0x00] b;
            b = re_sub newline FP_STACK_FILTER_1 [CHR 0x00, CHR 0x00] b
        in b)"

subsection \<open>Affix stripping\<close>

text \<open>
  \<^verbatim>\<open>FP_FILTER_PREFIXES = re.compile(r"^.?((p|P|0|W4|Q)?VA)(0|7Q|,)?|(0|P)?\\A|\[A|P\]A|@AA|fqd`|(fe){5,}|(p|P)_A")\<close>

  The alternation binds weaker than concatenation, so the pattern has eight branches and
  \<^verbatim>\<open>^\<close> belongs to the first of them.
\<close>

definition FP_FILTER_PREFIXES :: "char rx" where
  "FP_FILTER_PREFIXES =
     alts
      [seqs [Bol, Opt Dot,
             Grp 1 (Seq (Opt (Grp 2 (alts [word ''p'', word ''P'', word ''0'', word ''W4'', word ''Q''])))
                        (word ''VA'')),
             Opt (Grp 3 (alts [word ''0'', word ''7Q'', word '','']))],
       Seq (Opt (Grp 4 (alts [word ''0'', word ''P'']))) (word [CHR 0x5C, CHR ''A'']),
       word ''[A'',
       word ''P]A'',
       word ''@AA'',
       word (''fqd'' @ [CHR 0x60]),
       Rep 5 (Grp 5 (word ''fe'')),
       Seq (Grp 6 (alts [word ''p'', word ''P''])) (word ''_A'')]"

text \<open>
  \<^verbatim>\<open>FP_FILTER_SUFFIXES = re.compile(r"([0-9A-G>]VA|@AA|iiVV|j=p@|ids@|iDC@|i4C@|i%1@)$")\<close>
\<close>

definition FP_FILTER_SUFFIXES :: "char rx" where
  "FP_FILTER_SUFFIXES =
     Seq (Grp 1 (alts [Seq (Cls ''0123456789ABCDEFG>'') (word ''VA''),
                       word ''@AA'', word ''iiVV'', word ''j=p@'', word ''ids@'',
                       word ''iDC@'', word ''i4C@'', word ''i%1@'']))
         Eol"

text \<open>The loop of \<^verbatim>\<open>strip_string\<close> over the two patterns, each replaced by the empty string.\<close>

definition strip_string :: "string \<Rightarrow> string" where
  "strip_string s =
     foldl (\<lambda>s reg. re_sub newline reg [] s) s [FP_FILTER_PREFIXES, FP_FILTER_SUFFIXES]"


section \<open>Candidate strings\<close>

text \<open>
  Modelled from the spec: \<^verbatim>\<open>StaticString\<close> comes from \<^verbatim>\<open>floss/results.py\<close>, which is
  not among the sources. \<^verbatim>\<open>extract_strings\<close> builds one from a text, an offset and an
  encoding, in this order, and reads the fields \<^verbatim>\<open>string\<close>, \<^verbatim>\<open>offset\<close> and
  \<^verbatim>\<open>encoding\<close>; the specification (section 3) gives the offset as a non-negative
  integer and the encoding as one of ascii and utf16le.
\<close>

datatype StringEncoding = ASCII | UTF16LE

record StaticString =
  string :: string
  offset :: nat
  encoding :: StringEncoding

subsection \<open>The run extractor\<close>

text \<open>
  \<^verbatim>\<open>floss.strings.extract_ascii_unicode_strings\<close> is not among the sources.
  \<open>extract_strings\<close> below takes the extractor as a parameter, and the theorems hold for
  every extractor. The definitions of this subsection follow the specification (4.1);
  they are the extractor at which the closed examples are evaluated.
\<close>

text \<open>
  Modelled from the spec: the printable class of the ASCII encoding, space through tilde.
\<close>

definition printable :: "byte \<Rightarrow> bool" where
  "printable c = (32 \<le> (of_char c :: nat) \<and> (of_char c :: nat) \<le> 126)"

text \<open>
  Modelled from the spec: every maximal run of printable bytes, of length at least one, is
  reported once, tagged ascii, with the offset of its first byte.
\<close>

function ascii_runs :: "nat \<Rightarrow> bytes \<Rightarrow> StaticString list" where
  "ascii_runs i [] = []"
| "ascii_runs i (x # t) =
     (if printable x then
        \<lparr>string = x # takeWhile printable t, offset = i, encoding = ASCII\<rparr>
          # ascii_runs (i + Suc (length (takeWhile printable t))) (dropWhile printable t)
      else ascii_runs (Suc i) t)"
  by pat_completeness auto
termination
  by (relation "measure (\<lambda>(i, s). length s)") (auto simp: length_dropWhile_le le_imp_less_Suc)

text \<open>
  Modelled from the spec: a run of two-byte little-endian printable code units. The
  specification leaves the class of printable code units open beyond "surrogate-free
  printable code points"; here it is the code points space through tilde, that is a
  printable low byte followed by a zero high byte.
\<close>

fun wide_run :: "bytes \<Rightarrow> string" where
  "wide_run (lo # hi # t) =
     (if printable lo \<and> hi = CHR 0x00 then lo # wide_run t else [])"
| "wide_run s = []"

text \<open>
  Modelled from the spec: every maximal run of two-byte code units is reported once,
  tagged utf16le, with the offset of its first byte.
\<close>

function utf16_runs :: "nat \<Rightarrow> bytes \<Rightarrow> StaticString list" where
  "utf16_runs i [] = []"
| "utf16_runs i (x # t) =
     (let w = wide_run (x # t) in
      if w \<noteq> [] then
        \<lparr>string = w, offset = i, encoding = UTF16LE\<rparr>
          # utf16_runs (i + 2 * length w) (drop (2 * length w) (x # t))
      else utf16_runs (Suc i) t)"
  by pat_completeness auto
termination
  by (relation "measure (\<lambda>(i, s). length s)") (auto simp: Let_def)

text \<open>
  Modelled from the spec: candidates come in ascending offset order; an ascii and a
  utf16le run that start at the same offset are both emitted, here the ascii run first.
\<close>

fun merge_by_offset :: "StaticString list \<Rightarrow> StaticString list \<Rightarrow> StaticString list" where
  "merge_by_offset [] ys = ys"
| "merge_by_offset xs [] = xs"
| "merge_by_offset (x # xs) (y # ys) =
     (if offset x \<le> offset y then x # merge_by_offset xs (y # ys)
      else y # merge_by_offset (x # xs) ys)"

text \<open>
  Modelled from the spec: \<^verbatim>\<open>floss.strings.extract_ascii_unicode_strings\<close>, the runs of
  both encodings of one buffer.
\<close>

definition extract_ascii_unicode_strings :: "bytes \<Rightarrow> StaticString list" where
  "extract_ascii_unicode_strings buf = merge_by_offset (ascii_runs 0 buf) (utf16_runs 0 buf)"

section \<open>\<^verbatim>\<open>extract_strings\<close>\<close>

text \<open>
  The body of the loop over the candidates: \<open>None\<close> where the source says
  \<^verbatim>\<open>continue\<close>, \<open>Some\<close> of the yielded value otherwise. \<^verbatim>\<open>MAX_STRING_LENGTH\<close> is
  imported from \<^verbatim>\<open>floss/const.py\<close>, which is not among the sources: it is the
  parameter \<open>max_len\<close>. The exclusion set is \<open>None\<close> for Python's \<^verbatim>\<open>None\<close>; the
  test \<^verbatim>\<open>exclude and decoded_string in exclude\<close> is false for \<^verbatim>\<open>None\<close> and for
  the empty set.
\<close>

definition filter_candidate ::
  "nat \<Rightarrow> int \<Rightarrow> string set option \<Rightarrow> StaticString \<Rightarrow> StaticString option" where
  "filter_candidate max_len min_length exclude s =
     (if length (string s) > max_len then None
      else if string s \<in> set FP_STRINGS then None
      else
        let decoded_string = strip_string (string s) in
        if int (length decoded_string) < min_length then None
        else if (case exclude of None \<Rightarrow> False
                 | Some e \<Rightarrow> e \<noteq> {} \<and> decoded_string \<in> e) then None
        else Some \<lparr>string = decoded_string, offset = offset s, encoding = encoding s\<rparr>)"

fun candidates_loop ::
  "nat \<Rightarrow> int \<Rightarrow> string set option \<Rightarrow> StaticString list \<Rightarrow> StaticString list" where
  "candidates_loop max_len min_length exclude [] = []"
| "candidates_loop max_len min_length exclude (s # ss) =
     (case filter_candidate max_len min_length exclude s of
        None \<Rightarrow> candidates_loop max_len min_length exclude ss
      | Some y \<Rightarrow> y # candidates_loop max_len min_length exclude ss)"

text \<open>
  The generator, as the list of the values it yields. \<open>extractor\<close> stands for
  \<^verbatim>\<open>floss.strings.extract_ascii_unicode_strings\<close>. \<^verbatim>\<open>strip_bytes\<close> is called with
  the buffer alone, so its flag has the default \<^verbatim>\<open>False\<close>.
\<close>

definition extract_strings ::
  "(bytes \<Rightarrow> StaticString list) \<Rightarrow> nat \<Rightarrow> bytes \<Rightarrow> int \<Rightarrow> string set option
     \<Rightarrow> StaticString list" where
  "extract_strings extractor max_len buffer min_length exclude =
     (let buffer_stripped = strip_bytes buffer False in
      if int (length buffer) < min_length then []
      else candidates_loop max_len min_length exclude (extractor buffer_stripped))"



section \<open>Properties\<close>

subsection \<open>The loop\<close>

lemma candidates_loop_map_filter:
  "candidates_loop M L ex cs = List.map_filter (filter_candidate M L ex) cs"
  by (induction cs) (simp_all add: List.map_filter_simps split: option.splits)

lemma candidates_loop_append:
  "candidates_loop M L ex (xs @ ys) = candidates_loop M L ex xs @ candidates_loop M L ex ys"
  by (induction xs) (simp_all split: option.splits)

lemma set_candidates_loop:
  "set (candidates_loop M L ex cs) = {y. \<exists>s \<in> set cs. filter_candidate M L ex s = Some y}"
  by (induction cs) (auto split: option.splits)

lemma candidates_loop_dropped:
  "filter_candidate M L ex s = None \<Longrightarrow>
   candidates_loop M L ex (pre @ s # post) = candidates_loop M L ex (pre @ post)"
  by (simp add: candidates_loop_append)

lemma candidates_loop_yielded:
  "filter_candidate M L ex s = Some y \<Longrightarrow>
   candidates_loop M L ex (pre @ s # post)
     = candidates_loop M L ex pre @ y # candidates_loop M L ex post"
  by (simp add: candidates_loop_append)

lemma filter_candidate_cases:
  "filter_candidate M L ex s =
     (if M < length (string s) \<or> string s \<in> set FP_STRINGS
         \<or> int (length (strip_string (string s))) < L
         \<or> (\<exists>e. ex = Some e \<and> strip_string (string s) \<in> e)
      then None
      else Some \<lparr>string = strip_string (string s), offset = offset s, encoding = encoding s\<rparr>)"
  by (auto simp: filter_candidate_def Let_def split: option.splits)

lemma filter_candidate_negative:
  "L < 0 \<Longrightarrow> filter_candidate M L ex s = filter_candidate M 0 ex s"
  by (simp add: filter_candidate_cases)

lemma candidates_loop_negative:
  "L < 0 \<Longrightarrow> candidates_loop M L ex cs = candidates_loop M 0 ex cs"
  by (induction cs) (simp_all add: filter_candidate_negative split: option.splits)

subsection \<open>The matcher\<close>

text \<open>
  A match never lengthens the rest of the subject, and a pattern that \<open>consumes\<close>
  shortens it. So the empty-match branch of \<open>rx_scan\<close> is not taken for the patterns of
  the code, and the greedy loop gives the same result for every fuel above the length of
  the rest.
\<close>

lemma iter_le:
  assumes m: "\<And>st st'. st' \<in> set (m st) \<Longrightarrow> length (fst st') \<le> length (fst st)"
  shows "st' \<in> set (iter m k st) \<Longrightarrow> length (fst st') \<le> length (fst st)"
proof (induction k arbitrary: st)
  case 0
  then show ?case by simp
next
  case (Suc k)
  then obtain st1 where "st1 \<in> set (m st)" "st' \<in> set (iter m k st1)" by auto
  with Suc.IH m show ?case by (meson order_trans)
qed

lemma star_le:
  assumes m: "\<And>st st'. st' \<in> set (m st) \<Longrightarrow> length (fst st') \<le> length (fst st)"
  shows "st' \<in> set (star m f st) \<Longrightarrow> length (fst st') \<le> length (fst st)"
proof (induction f arbitrary: st)
  case 0
  then show ?case by simp
next
  case (Suc f)
  from Suc.prems have "st' = st \<or> (\<exists>st1 \<in> set (m st).
      (length (fst st1) < length (fst st) \<and> st' \<in> set (star m f st1)) \<or> st' = st1)"
    by (auto split: if_splits)
  then show ?case
  proof (elim disjE bexE conjE)
    assume "st' = st"
    then show ?thesis by simp
  next
    fix st1
    assume "length (fst st1) < length (fst st)" "st' \<in> set (star m f st1)"
    with Suc.IH [of st1] show ?thesis by simp
  next
    fix st1
    assume "st1 \<in> set (m st)" "st' = st1"
    with m show ?thesis by blast
  qed
qed

lemma rx_run_le:
  "st' \<in> set (rx_run nl n r st) \<Longrightarrow> length (fst st') \<le> length (fst st)"
proof (induction r arbitrary: st st')
  case (Seq r1 r2)
  then obtain st1 where "st1 \<in> set (rx_run nl n r1 st)" "st' \<in> set (rx_run nl n r2 st1)"
    by auto
  with Seq.IH show ?case by (meson order_trans)
next
  case (Rep k r)
  then obtain st1 where a: "st1 \<in> set (iter (rx_run nl n r) k st)"
    and b: "st' \<in> set (star (rx_run nl n r) (Suc (length (fst st1))) st1)"
    by auto
  from a Rep.IH have "length (fst st1) \<le> length (fst st)" by (rule iter_le [rotated])
  moreover from b Rep.IH have "length (fst st') \<le> length (fst st1)" by (rule star_le [rotated])
  ultimately show ?case by simp
next
  case (Grp k r)
  then show ?case by (cases st) force
qed (cases st; auto split: list.splits if_splits option.splits)+

lemma rx_run_lt:
  "consumes r \<Longrightarrow> st' \<in> set (rx_run nl n r st) \<Longrightarrow> length (fst st') < length (fst st)"
proof (induction r arbitrary: st st')
  case (Seq r1 r2)
  from Seq.prems(2) obtain st1
    where a: "st1 \<in> set (rx_run nl n r1 st)" and b: "st' \<in> set (rx_run nl n r2 st1)"
    by auto
  from a have a': "length (fst st1) \<le> length (fst st)" by (rule rx_run_le)
  from b have b': "length (fst st') \<le> length (fst st1)" by (rule rx_run_le)
  from Seq.prems(1) consider "consumes r1" | "consumes r2" by auto
  then show ?case
  proof cases
    case 1
    with Seq.IH(1) a have "length (fst st1) < length (fst st)" by blast
    with b' show ?thesis by simp
  next
    case 2
    with Seq.IH(2) b have "length (fst st') < length (fst st1)" by blast
    with a' show ?thesis by simp
  qed
next
  case (Rep k r)
  from Rep.prems(1) obtain j where k: "k = Suc j" and c: "consumes r"
    by (cases k) auto
  from Rep.prems(2) obtain st1 where a: "st1 \<in> set (iter (rx_run nl n r) k st)"
    and b: "st' \<in> set (star (rx_run nl n r) (Suc (length (fst st1))) st1)"
    by auto
  have le: "\<And>st st'. st' \<in> set (rx_run nl n r st) \<Longrightarrow> length (fst st') \<le> length (fst st)"
    by (rule rx_run_le)
  from a k obtain st0 where a0: "st0 \<in> set (rx_run nl n r st)"
    and a1: "st1 \<in> set (iter (rx_run nl n r) j st0)"
    by auto
  from Rep.IH c a0 have "length (fst st0) < length (fst st)" by blast
  moreover from a1 le have "length (fst st1) \<le> length (fst st0)" by (rule iter_le [rotated])
  moreover from b le have "length (fst st') \<le> length (fst st1)" by (rule star_le [rotated])
  ultimately show ?case by simp
next
  case (Grp k r)
  then show ?case by (cases st) force
qed (cases st; auto split: list.splits if_splits)+

lemma rx_match_consumes:
  assumes "consumes r" and "rx_match nl n r s = Some s'"
  shows "length s' < length s"
proof -
  from assms(2) obtain g rest where "rx_run nl n r (s, Map.empty) = (s', g) # rest"
    by (auto simp: rx_match_def split: list.splits)
  then have "(s', g) \<in> set (rx_run nl n r (s, Map.empty))" by simp
  with assms(1) have "length (fst (s', g)) < length (fst (s, Map.empty :: nat \<rightharpoonup> 'a list))"
    by (rule rx_run_lt)
  then show ?thesis by simp
qed

lemma rx_scan_consumes:
  "consumes r \<Longrightarrow>
   rx_scan nl n r repl (x # t) =
     (case rx_match nl n r (x # t) of
        None \<Rightarrow> x # rx_scan nl n r repl t
      | Some s' \<Rightarrow> repl @ rx_scan nl n r repl s')"
  by (auto split: option.splits dest: rx_match_consumes)

lemma patterns_consume:
  "consumes FP_FILTER_REP_BYTES" "consumes FP_STACK_FILTER_1"
  "consumes FP_FILTER_PREFIXES" "consumes FP_FILTER_SUFFIXES"
  by (simp_all add: FP_FILTER_REP_BYTES_def FP_STACK_FILTER_1_def
        FP_FILTER_PREFIXES_def FP_FILTER_SUFFIXES_def)

lemma star_fuel:
  assumes m: "\<And>st st'. st' \<in> set (m st) \<Longrightarrow> length (fst st') \<le> length (fst st)"
  shows "length (fst st) < f \<Longrightarrow> star m (Suc f) st = star m f st"
proof (induction f arbitrary: st)
  case 0
  then show ?case by simp
next
  case (Suc f)
  have "(if length (fst st') < length (fst st) then star m (Suc f) st' else [st'])
      = (if length (fst st') < length (fst st) then star m f st' else [st'])" for st'
    using Suc.IH [of st'] Suc.prems by simp
  then show ?case by simp
qed

lemma star_enough_fuel:
  "length (fst st) < f \<Longrightarrow>
   star (rx_run nl n r) f st = star (rx_run nl n r) (Suc (length (fst st))) st"
proof (induction f)
  case 0
  then show ?case by simp
next
  case (Suc f)
  show ?case
  proof (cases "length (fst st) < f")
    case True
    then have "star (rx_run nl n r) (Suc f) st = star (rx_run nl n r) f st"
      by (rule star_fuel [rotated]) (rule rx_run_le)
    with Suc.IH True show ?thesis by simp
  next
    case False
    with Suc.prems have "f = length (fst st)" by simp
    then show ?thesis by simp
  qed
qed

subsection \<open>The repeated-byte pattern\<close>

text \<open>
  \<^verbatim>\<open>(.)\1{3,}\<close> matches at a byte other than the newline that is followed by at
  least three copies of itself, and reads the whole run. So the first substitution of
  \<^verbatim>\<open>strip_bytes\<close> replaces a maximal run of four or more copies of a byte other than
  the newline by the two null bytes, and scans the bytes before and after the run as it
  scans them alone; the second substitution then works on the result.
\<close>

lemma bref_step:
  "g k = Some [c] \<Longrightarrow>
   rx_run nl n (Bref k) (u, g) = (case u of [] \<Rightarrow> [] | x # u' \<Rightarrow> if x = c then [(u', g)] else [])"
  by (cases u) auto

lemma star_bref:
  "g k = Some [c] \<Longrightarrow> length u < f \<Longrightarrow>
   \<exists>rest. star (rx_run nl n (Bref k)) f (u, g) = (dropWhile (\<lambda>x. x = c) u, g) # rest"
proof (induction u arbitrary: f)
  case Nil
  then obtain f' where "f = Suc f'" by (cases f) auto
  with Nil show ?case by (simp add: bref_step)
next
  case (Cons x u)
  then obtain f' where f: "f = Suc f'" and len: "length u < f'" by (cases f) auto
  show ?case
  proof (cases "x = c")
    case True
    from Cons.IH [OF Cons.prems(1) len] obtain rest
      where "star (rx_run nl n (Bref k)) f' (u, g) = (dropWhile (\<lambda>x. x = c) u, g) # rest"
      by blast
    with True f Cons.prems(1) show ?thesis by (simp add: bref_step)
  next
    case False
    with f Cons.prems(1) show ?thesis by (simp add: bref_step)
  qed
qed

lemma iter_bref_3:
  "g k = Some [c] \<Longrightarrow>
   iter (rx_run nl n (Bref k)) 3 (t, g)
     = (if 3 \<le> length (takeWhile (\<lambda>x. x = c) t) then [(drop 3 t, g)] else [])"
  by (auto simp: numeral_3_eq_3 bref_step simp del: rx_run.simps split: list.splits)

lemma dropWhile_drop:
  "k \<le> length (takeWhile P t) \<Longrightarrow> dropWhile P (drop k t) = dropWhile P t"
proof (induction t arbitrary: k)
  case Nil
  then show ?case by simp
next
  case (Cons x t)
  then show ?case by (cases k) (auto split: if_splits)
qed

lemma rep_run:
  "rx_run nl n (Seq (Grp k Dot) (Rep 3 (Bref k))) (c # t, g) =
     (if c \<noteq> nl \<and> 3 \<le> length (takeWhile (\<lambda>x. x = c) t)
      then star (rx_run nl n (Bref k)) (Suc (length (drop 3 t))) (drop 3 t, g(k \<mapsto> [c]))
      else [])"
  by (simp add: iter_bref_3 del: star.simps rx_run.simps(12))

lemma rep_bytes_match:
  "rx_match nl n FP_FILTER_REP_BYTES s =
     (case s of
        [] \<Rightarrow> None
      | c # t \<Rightarrow>
          if c \<noteq> nl \<and> 3 \<le> length (takeWhile (\<lambda>x. x = c) t)
          then Some (dropWhile (\<lambda>x. x = c) t) else None)"
proof (cases s)
  case Nil
  then show ?thesis by (simp add: rx_match_def FP_FILTER_REP_BYTES_def)
next
  case (Cons c t)
  let ?g = "(Map.empty :: nat \<rightharpoonup> bytes)(1 \<mapsto> [c])"
  have "?g 1 = Some [c]" by simp
  then obtain rest
    where "star (rx_run nl n (Bref 1)) (Suc (length (drop 3 t))) (drop 3 t, ?g)
        = (dropWhile (\<lambda>x. x = c) (drop 3 t), ?g) # rest"
    using star_bref [of ?g 1 c "drop 3 t" "Suc (length (drop 3 t))" nl n] by auto
  then show ?thesis
    unfolding Cons rx_match_def FP_FILTER_REP_BYTES_def rep_run
    by (simp add: dropWhile_drop del: star.simps)
qed


lemma rep_scan_Nil:
  "rx_scan nl n FP_FILTER_REP_BYTES repl [] = []"
  by (simp add: rep_bytes_match)

lemma rep_scan_Cons:
  "rx_scan nl n FP_FILTER_REP_BYTES repl (x # t) =
     (if x \<noteq> nl \<and> 3 \<le> length (takeWhile (\<lambda>y. y = x) t)
      then repl @ rx_scan nl n FP_FILTER_REP_BYTES repl (dropWhile (\<lambda>y. y = x) t)
      else x # rx_scan nl n FP_FILTER_REP_BYTES repl t)"
  by (simp add: rx_scan_consumes patterns_consume rep_bytes_match del: rx_scan.simps)

lemma run_boundary:
  assumes "pre = x # t" and "pre = [] \<or> last pre \<noteq> c" and "0 < k"
  shows "takeWhile (\<lambda>y. y = x) (t @ replicate k c @ post) = takeWhile (\<lambda>y. y = x) t"
    and "dropWhile (\<lambda>y. y = x) (t @ replicate k c @ post)
           = dropWhile (\<lambda>y. y = x) t @ replicate k c @ post"
proof -
  obtain j where k: "k = Suc j" using assms(3) by (cases k) auto
  have "takeWhile (\<lambda>y. y = x) (t @ replicate k c @ post) = takeWhile (\<lambda>y. y = x) t
      \<and> dropWhile (\<lambda>y. y = x) (t @ replicate k c @ post)
           = dropWhile (\<lambda>y. y = x) t @ replicate k c @ post"
  proof (cases "\<exists>y \<in> set t. y \<noteq> x")
    case True
    then show ?thesis by (auto simp: takeWhile_append1 dropWhile_append1)
  next
    case False
    then have all: "\<forall>y \<in> set t. y = x" by blast
    then have "last (x # t) = x" by (induction t) auto
    with assms(1,2) have neq: "x \<noteq> c" by auto
    from all have tw: "takeWhile (\<lambda>y. y = x) t = t" and dw: "dropWhile (\<lambda>y. y = x) t = []"
      by (simp_all add: takeWhile_eq_all_conv)
    from all have "takeWhile (\<lambda>y. y = x) (t @ replicate k c @ post)
        = t @ takeWhile (\<lambda>y. y = x) (replicate k c @ post)"
      by (simp add: takeWhile_append2)
    also from neq k have "takeWhile (\<lambda>y. y = x) (replicate k c @ post) = []" by simp
    finally have a: "takeWhile (\<lambda>y. y = x) (t @ replicate k c @ post) = t" by simp
    from all have "dropWhile (\<lambda>y. y = x) (t @ replicate k c @ post)
        = dropWhile (\<lambda>y. y = x) (replicate k c @ post)"
      by (simp add: dropWhile_append2)
    also from neq k have "\<dots> = replicate k c @ post" by simp
    finally have b: "dropWhile (\<lambda>y. y = x) (t @ replicate k c @ post) = replicate k c @ post" .
    from a b show ?thesis by (simp only: tw dw append_Nil simp_thms)
  qed
  then show "takeWhile (\<lambda>y. y = x) (t @ replicate k c @ post) = takeWhile (\<lambda>y. y = x) t"
    and "dropWhile (\<lambda>y. y = x) (t @ replicate k c @ post)
           = dropWhile (\<lambda>y. y = x) t @ replicate k c @ post"
    by blast+
qed

lemma rep_scan_run:
  assumes "c \<noteq> nl" and "4 \<le> k" and "post = [] \<or> hd post \<noteq> c"
  shows "pre = [] \<or> last pre \<noteq> c \<Longrightarrow>
    rx_scan nl n FP_FILTER_REP_BYTES repl (pre @ replicate k c @ post)
      = rx_scan nl n FP_FILTER_REP_BYTES repl pre @ repl
          @ rx_scan nl n FP_FILTER_REP_BYTES repl post"
proof (induction "length pre" arbitrary: pre rule: less_induct)
  case less
  show ?case
  proof (cases pre)
    case Nil
    from assms(2) obtain j where k: "k = Suc j" and j: "3 \<le> j" by (cases k) auto
    have all: "\<And>y. y \<in> set (replicate j c) \<Longrightarrow> y = c" by simp
    from assms(3) have nohead: "takeWhile (\<lambda>y. y = c) post = []"
      and keep: "dropWhile (\<lambda>y. y = c) post = post"
      by (cases post; simp)+
    have tw: "takeWhile (\<lambda>y. y = c) (replicate j c @ post) = replicate j c"
      using takeWhile_append2 [of "replicate j c" "\<lambda>y. y = c" post] all nohead by simp
    have dw: "dropWhile (\<lambda>y. y = c) (replicate j c @ post) = post"
      using dropWhile_append2 [of "replicate j c" "\<lambda>y. y = c" post] all keep by simp
    from Nil k j assms(1) show ?thesis
      by (simp add: rep_scan_Cons rep_scan_Nil tw dw del: rx_scan.simps)
  next
    case (Cons x t)
    from assms(2) have kpos: "0 < k" by simp
    note b = run_boundary [OF Cons less.prems kpos, of post]
    show ?thesis
    proof (cases "x \<noteq> nl \<and> 3 \<le> length (takeWhile (\<lambda>y. y = x) t)")
      case True
      let ?d = "dropWhile (\<lambda>y. y = x) t"
      have len: "length ?d < length pre"
        using Cons by (simp add: length_dropWhile_le le_imp_less_Suc)
      have "?d = [] \<or> last ?d \<noteq> c"
      proof (cases "?d = []")
        case False
        then have "last ?d = last t"
          by (metis last_appendR takeWhile_dropWhile_id)
        moreover from False have "t \<noteq> []" by auto
        ultimately show ?thesis using less.prems Cons by auto
      qed simp
      from less.hyps [OF len this] True show ?thesis
        by (simp add: Cons rep_scan_Cons b del: rx_scan.simps)
    next
      case False
      have "t = [] \<or> last t \<noteq> c" using less.prems Cons by (auto split: if_splits)
      with less.hyps [of t] Cons False show ?thesis
        by (auto simp: rep_scan_Cons b simp del: rx_scan.simps)
    qed
  qed
qed

lemma rep_scan_length_free:
  "rx_scan nl n FP_FILTER_REP_BYTES repl s = rx_scan nl n' FP_FILTER_REP_BYTES repl s"
proof (induction "length s" arbitrary: s rule: less_induct)
  case less
  show ?case
  proof (cases s)
    case Nil
    then show ?thesis by (simp add: rep_bytes_match)
  next
    case (Cons x t)
    have "length (dropWhile (\<lambda>y. y = x) t) < length s"
      using Cons by (simp add: length_dropWhile_le le_imp_less_Suc)
    with less.hyps [of "dropWhile (\<lambda>y. y = x) t"] less.hyps [of t] Cons show ?thesis
      by (simp add: rep_scan_Cons del: rx_scan.simps)
  qed
qed

lemma re_sub_collapses_run:
  assumes "c \<noteq> newline" and "4 \<le> k"
    and "pre = [] \<or> last pre \<noteq> c" and "post = [] \<or> hd post \<noteq> c"
  shows "re_sub newline FP_FILTER_REP_BYTES [CHR 0x00, CHR 0x00] (pre @ replicate k c @ post)
      = re_sub newline FP_FILTER_REP_BYTES [CHR 0x00, CHR 0x00] pre
          @ [CHR 0x00, CHR 0x00]
          @ re_sub newline FP_FILTER_REP_BYTES [CHR 0x00, CHR 0x00] post"
  unfolding re_sub_def
  using rep_scan_run [OF assms(1,2,4,3), of "length (pre @ replicate k c @ post)" "[CHR 0x00, CHR 0x00]"]
    rep_scan_length_free [of newline "length (pre @ replicate k c @ post)" "[CHR 0x00, CHR 0x00]" pre "length pre"]
    rep_scan_length_free [of newline "length (pre @ replicate k c @ post)" "[CHR 0x00, CHR 0x00]" post "length post"]
  by simp

lemma strip_bytes_collapses_run:
  assumes "c \<noteq> newline" and "4 \<le> k"
    and "pre = [] \<or> last pre \<noteq> c" and "post = [] \<or> hd post \<noteq> c"
  shows "strip_bytes (pre @ replicate k c @ post) True
      = re_sub newline FP_STACK_FILTER_1 [CHR 0x00, CHR 0x00]
          (re_sub newline FP_FILTER_REP_BYTES [CHR 0x00, CHR 0x00] pre
            @ [CHR 0x00, CHR 0x00]
            @ re_sub newline FP_FILTER_REP_BYTES [CHR 0x00, CHR 0x00] post)"
  using re_sub_collapses_run [OF assms] by (simp add: strip_bytes_def)

lemma strip_bytes_collapses_A_run:
  "strip_bytes ''helloAAAAAworld'' True = ''hello'' @ [CHR 0x00, CHR 0x00] @ ''world''"
  by code_simp


subsection \<open>Substitution where nothing matches\<close>

lemma rx_scan_no_match:
  "(\<forall>k \<le> length s. rx_match nl n r (drop k s) = None) \<Longrightarrow> rx_scan nl n r repl s = s"
proof (induction s)
  case Nil
  then show ?case by simp
next
  case (Cons x t)
  from Cons.prems have here: "rx_match nl n r (x # t) = None"
    by (metis drop0 le0)
  have "\<forall>k \<le> length t. rx_match nl n r (drop k t) = None"
  proof (intro allI impI)
    fix k assume "k \<le> length t"
    then have "Suc k \<le> length (x # t)" by simp
    with Cons.prems have "rx_match nl n r (drop (Suc k) (x # t)) = None" by blast
    then show "rx_match nl n r (drop k t) = None" by simp
  qed
  with Cons.IH have "rx_scan nl n r repl t = t" by blast
  with here show ?case by simp
qed

lemma re_sub_no_match:
  "(\<forall>k \<le> length s. rx_match nl (length s) r (drop k s) = None) \<Longrightarrow> re_sub nl r repl s = s"
  by (simp add: re_sub_def rx_scan_no_match)

lemma strip_string_no_match:
  assumes "\<forall>k \<le> length s. rx_match newline (length s) FP_FILTER_PREFIXES (drop k s) = None"
    and "\<forall>k \<le> length s. rx_match newline (length s) FP_FILTER_SUFFIXES (drop k s) = None"
  shows "strip_string s = s"
  using assms by (simp add: strip_string_def re_sub_no_match)

lemma strip_string_not_iterated:
  "strip_string ''VAVAhello'' = ''VAhello'' \<and> strip_string ''VAhello'' = ''hello''"
  by code_simp

lemma strip_string_inside_a_path:
  "strip_string (''C:'' @ [CHR 0x5C] @ ''Users'' @ [CHR 0x5C] @ ''Admin'')
     = ''C:'' @ [CHR 0x5C] @ ''Usersdmin''"
  by code_simp

lemma printable_alphabet_in_FP_STRINGS:
  "map char_of [32 ..< 127 :: nat] \<in> set FP_STRINGS"
  by code_simp


section \<open>The claims\<close>

text \<open>
  C1. The claim: a call of \<^verbatim>\<open>extract_strings\<close> with a negative \<^verbatim>\<open>min_length\<close> is
  rejected with an error before any scanning, and produces no candidates. The code has
  no such check. As amended: for a negative \<^verbatim>\<open>min_length\<close> the call raises nothing,
  does not take the short-buffer return, hands the buffer to the extractor, and yields
  what the loop yields with the threshold 0: the length re-check after stripping drops no
  candidate, while the maximum-length cap, the denylist and the exclusion set apply as
  before.
\<close>

theorem C1_negative_min_length_is_not_rejected:
  "min_length < 0 \<Longrightarrow>
   extract_strings extractor max_len buffer min_length exclude
     = candidates_loop max_len 0 exclude (extractor buffer)"
  by (simp add: extract_strings_def strip_bytes_def candidates_loop_negative)

theorem C1_negative_min_length_is_not_rejected_witness:
  "(- 1 :: int) < 0 \<and>
   extract_strings extract_ascii_unicode_strings 2048 ''hello'' (- 1) None
     = candidates_loop 2048 0 None (extract_ascii_unicode_strings ''hello'') \<and>
   candidates_loop 2048 0 None (extract_ascii_unicode_strings ''hello'')
     = [\<lparr>string = ''hello'', offset = 0, encoding = ASCII\<rparr>]"
proof -
  have neg: "(- 1 :: int) < 0" by simp
  have run: "candidates_loop 2048 0 None (extract_ascii_unicode_strings ''hello'')
     = [\<lparr>string = ''hello'', offset = 0, encoding = ASCII\<rparr>]"
    by code_simp
  from C1_negative_min_length_is_not_rejected [OF neg] neg run show ?thesis by blast
qed

text \<open>
  The claim of C1 as stated fails: with \<^verbatim>\<open>min_length = -1\<close> the five bytes of
  \<^verbatim>\<open>hello\<close> give one candidate.
\<close>

theorem C1_counterexample:
  "extract_strings extract_ascii_unicode_strings 2048 ''hello'' (- 1) None
     = [\<lparr>string = ''hello'', offset = 0, encoding = ASCII\<rparr>]"
  by code_simp

text \<open>
  C2. The claim: the prefix pattern of \<^verbatim>\<open>strip_string\<close> removes only a leading
  fragment of the string. In \<^verbatim>\<open>FP_FILTER_PREFIXES\<close> the anchor \<^verbatim>\<open>^\<close> belongs to the
  first of the eight branches only, and \<^verbatim>\<open>re.sub\<close> replaces every match: the branch
  \<^verbatim>\<open>@AA\<close> is removed from the middle of \<^verbatim>\<open>hello@AAworld\<close>.
\<close>

theorem C2_strip_string_removes_inner_fragment:
  "strip_string ''hello@AAworld'' = ''helloworld''"
  by code_simp

text \<open>
  C3. The claim: with the pre-filter enabled, a run of four or more equal bytes is
  replaced by two null bytes, for every byte value. In \<^verbatim>\<open>FP_FILTER_REP_BYTES\<close> the
  dot does not match the newline byte, and a run of four newline bytes stays as it is.
\<close>

theorem C3_newline_run_is_kept:
  "strip_bytes [CHR 0x0A, CHR 0x0A, CHR 0x0A, CHR 0x0A] True
     = [CHR 0x0A, CHR 0x0A, CHR 0x0A, CHR 0x0A]"
  by code_simp

text \<open>
  C4. For every buffer shorter than \<^verbatim>\<open>min_length\<close>, \<^verbatim>\<open>extract_strings\<close> yields the
  empty sequence, whatever the extractor would report for the buffer: the return comes
  before the loop over the extractor's candidates.
\<close>

theorem C4_short_buffer_yields_nothing:
  "int (length buffer) < min_length \<Longrightarrow>
   extract_strings extractor max_len buffer min_length exclude = []"
  by (simp add: extract_strings_def)

theorem C4_short_buffer_yields_nothing_witness:
  "int (length ''abc'') < 4 \<and>
   extract_strings extract_ascii_unicode_strings 2048 ''abc'' 4 None = [] \<and>
   extract_ascii_unicode_strings ''abc''
     = [\<lparr>string = ''abc'', offset = 0, encoding = ASCII\<rparr>]"
proof -
  have short: "int (length ''abc'') < 4" by simp
  have run: "extract_ascii_unicode_strings ''abc''
     = [\<lparr>string = ''abc'', offset = 0, encoding = ASCII\<rparr>]"
    by code_simp
  from C4_short_buffer_yields_nothing [OF short] short run show ?thesis by blast
qed


text \<open>
  C5. Every string yielded by \<^verbatim>\<open>extract_strings\<close> has at least \<^verbatim>\<open>min_length\<close>
  characters, counted after affix stripping; and a candidate whose stripped text is
  shorter than \<^verbatim>\<open>min_length\<close> adds nothing to the output of the loop, whatever
  candidates come before and after it.
\<close>

theorem C5_yielded_strings_reach_min_length:
  "(\<forall>y \<in> set (extract_strings extractor max_len buffer min_length exclude).
      min_length \<le> int (length (string y)))
   \<and> (int (length (strip_string (string s))) < min_length \<longrightarrow>
        candidates_loop max_len min_length exclude (pre @ s # post)
          = candidates_loop max_len min_length exclude (pre @ post))"
proof
  show "\<forall>y \<in> set (extract_strings extractor max_len buffer min_length exclude).
      min_length \<le> int (length (string y))"
    by (auto simp: extract_strings_def set_candidates_loop filter_candidate_cases
             split: if_splits)
next
  show "int (length (strip_string (string s))) < min_length \<longrightarrow>
        candidates_loop max_len min_length exclude (pre @ s # post)
          = candidates_loop max_len min_length exclude (pre @ post)"
    by (simp add: candidates_loop_dropped filter_candidate_cases)
qed

theorem C5_yielded_strings_reach_min_length_witness:
  "\<lparr>string = ''hello'', offset = 0, encoding = ASCII\<rparr>
      \<in> set (extract_strings extract_ascii_unicode_strings 2048 ''0VAhello'' 5 None) \<and>
   (5 :: int) \<le> int (length (string \<lparr>string = ''hello'', offset = 0, encoding = ASCII\<rparr>)) \<and>
   int (length (string \<lparr>string = ''0VAhello'', offset = 0, encoding = ASCII\<rparr>)) = 8 \<and>
   int (length (strip_string (string \<lparr>string = ''0VAhello'', offset = 0, encoding = ASCII\<rparr>))) < 8 \<and>
   candidates_loop 2048 8 None ([] @ \<lparr>string = ''0VAhello'', offset = 0, encoding = ASCII\<rparr> # [])
     = candidates_loop 2048 8 None ([] @ [])"
proof -
  have run: "extract_strings extract_ascii_unicode_strings 2048 ''0VAhello'' 5 None
      = [\<lparr>string = ''hello'', offset = 0, encoding = ASCII\<rparr>]"
    by code_simp
  have strip: "strip_string ''0VAhello'' = ''hello''"
    by code_simp
  note inst5 = C5_yielded_strings_reach_min_length
    [of extract_ascii_unicode_strings 2048 "''0VAhello''" 5 None
        "\<lparr>string = ''0VAhello'', offset = 0, encoding = ASCII\<rparr>" "[]" "[]"]
  note inst8 = C5_yielded_strings_reach_min_length
    [of extract_ascii_unicode_strings 2048 "''0VAhello''" 8 None
        "\<lparr>string = ''0VAhello'', offset = 0, encoding = ASCII\<rparr>" "[]" "[]"]
  from inst5 inst8 show ?thesis
    by (simp add: run strip)
qed

text \<open>
  C6. A candidate whose text, before affix stripping, is an entry of \<^verbatim>\<open>FP_STRINGS\<close>
  adds nothing to the output of the loop; a candidate whose text is no entry, and which
  passes the length cap, the length re-check and the exclusion set, is yielded with its
  stripped text. \<^verbatim>\<open>Runtime Error!\<close> and the string of all printable ASCII characters,
  space through tilde, are entries.
\<close>

theorem C6_denylist_exact_match:
  "(string s \<in> set FP_STRINGS \<longrightarrow>
      candidates_loop max_len min_length exclude (pre @ s # post)
        = candidates_loop max_len min_length exclude (pre @ post))
   \<and> (string s \<notin> set FP_STRINGS \<and> length (string s) \<le> max_len
        \<and> min_length \<le> int (length (strip_string (string s)))
        \<and> (\<forall>e. exclude = Some e \<longrightarrow> strip_string (string s) \<notin> e) \<longrightarrow>
      candidates_loop max_len min_length exclude (pre @ s # post)
        = candidates_loop max_len min_length exclude pre
            @ \<lparr>string = strip_string (string s), offset = offset s, encoding = encoding s\<rparr>
            # candidates_loop max_len min_length exclude post)
   \<and> ''Runtime Error!'' \<in> set FP_STRINGS
   \<and> map char_of [32 ..< 127 :: nat] \<in> set FP_STRINGS"
proof (intro conjI impI)
  assume "string s \<in> set FP_STRINGS"
  then show "candidates_loop max_len min_length exclude (pre @ s # post)
        = candidates_loop max_len min_length exclude (pre @ post)"
    by (simp add: candidates_loop_dropped filter_candidate_cases)
next
  assume "string s \<notin> set FP_STRINGS \<and> length (string s) \<le> max_len
        \<and> min_length \<le> int (length (strip_string (string s)))
        \<and> (\<forall>e. exclude = Some e \<longrightarrow> strip_string (string s) \<notin> e)"
  then have "filter_candidate max_len min_length exclude s
      = Some \<lparr>string = strip_string (string s), offset = offset s, encoding = encoding s\<rparr>"
    by (auto simp: filter_candidate_cases)
  then show "candidates_loop max_len min_length exclude (pre @ s # post)
        = candidates_loop max_len min_length exclude pre
            @ \<lparr>string = strip_string (string s), offset = offset s, encoding = encoding s\<rparr>
            # candidates_loop max_len min_length exclude post"
    by (rule candidates_loop_yielded)
next
  show "''Runtime Error!'' \<in> set FP_STRINGS"
    by (simp add: FP_STRINGS_def)
next
  show "map char_of [32 ..< 127 :: nat] \<in> set FP_STRINGS"
    by (rule printable_alphabet_in_FP_STRINGS)
qed

theorem C6_denylist_exact_match_witness:
  "string \<lparr>string = ''Runtime Error!'', offset = 0, encoding = ASCII\<rparr> \<in> set FP_STRINGS \<and>
   extract_strings extract_ascii_unicode_strings 2048 ''Runtime Error!'' 4 None = [] \<and>
   string \<lparr>string = ''0VARuntime Error!'', offset = 0, encoding = ASCII\<rparr> \<notin> set FP_STRINGS \<and>
   extract_strings extract_ascii_unicode_strings 2048 ''0VARuntime Error!'' 4 None
     = [\<lparr>string = ''Runtime Error!'', offset = 0, encoding = ASCII\<rparr>]"
proof -
  have cand: "extract_ascii_unicode_strings ''Runtime Error!''
      = [\<lparr>string = ''Runtime Error!'', offset = 0, encoding = ASCII\<rparr>]"
    by code_simp
  have cand': "extract_ascii_unicode_strings ''0VARuntime Error!''
      = [\<lparr>string = ''0VARuntime Error!'', offset = 0, encoding = ASCII\<rparr>]"
    by code_simp
  have strip: "strip_string ''0VARuntime Error!'' = ''Runtime Error!''"
    by code_simp
  have deny: "''Runtime Error!'' \<in> set FP_STRINGS"
    and keep: "''0VARuntime Error!'' \<notin> set FP_STRINGS"
    by (simp_all add: FP_STRINGS_def)
  have dropped: "candidates_loop 2048 4 None
      [\<lparr>string = ''Runtime Error!'', offset = 0, encoding = ASCII\<rparr>] = []"
    using C6_denylist_exact_match
      [of "\<lparr>string = ''Runtime Error!'', offset = 0, encoding = ASCII\<rparr>" 2048 4 None "[]" "[]",
       THEN conjunct1] deny
    by simp
  have yielded: "candidates_loop 2048 4 None
      [\<lparr>string = ''0VARuntime Error!'', offset = 0, encoding = ASCII\<rparr>]
        = [\<lparr>string = ''Runtime Error!'', offset = 0, encoding = ASCII\<rparr>]"
    using C6_denylist_exact_match
      [of "\<lparr>string = ''0VARuntime Error!'', offset = 0, encoding = ASCII\<rparr>" 2048 4 None "[]" "[]",
       THEN conjunct2, THEN conjunct1] keep
    by (simp add: strip)
  from dropped yielded deny keep show ?thesis
    by (simp add: extract_strings_def strip_bytes_def cand cand')
qed


text \<open>
  C7. When an exclusion set is supplied, a candidate whose stripped text is a member adds
  nothing to the output of the loop, and a candidate whose stripped text is no member,
  and which passes the length cap, the denylist and the length re-check, is yielded.
  When no exclusion set is supplied, every candidate that passes those three stages is
  yielded.
\<close>

theorem C7_exclusion_set:
  "(exclude = Some e \<and> strip_string (string s) \<in> e \<longrightarrow>
      candidates_loop max_len min_length exclude (pre @ s # post)
        = candidates_loop max_len min_length exclude (pre @ post))
   \<and> (exclude = Some e \<and> strip_string (string s) \<notin> e
        \<and> length (string s) \<le> max_len \<and> string s \<notin> set FP_STRINGS
        \<and> min_length \<le> int (length (strip_string (string s))) \<longrightarrow>
      candidates_loop max_len min_length exclude (pre @ s # post)
        = candidates_loop max_len min_length exclude pre
            @ \<lparr>string = strip_string (string s), offset = offset s, encoding = encoding s\<rparr>
            # candidates_loop max_len min_length exclude post)
   \<and> (exclude = None
        \<and> length (string s) \<le> max_len \<and> string s \<notin> set FP_STRINGS
        \<and> min_length \<le> int (length (strip_string (string s))) \<longrightarrow>
      candidates_loop max_len min_length exclude (pre @ s # post)
        = candidates_loop max_len min_length exclude pre
            @ \<lparr>string = strip_string (string s), offset = offset s, encoding = encoding s\<rparr>
            # candidates_loop max_len min_length exclude post)"
proof (intro conjI impI)
  assume "exclude = Some e \<and> strip_string (string s) \<in> e"
  then have "filter_candidate max_len min_length exclude s = None"
    by (auto simp: filter_candidate_cases)
  then show "candidates_loop max_len min_length exclude (pre @ s # post)
        = candidates_loop max_len min_length exclude (pre @ post)"
    by (rule candidates_loop_dropped)
next
  assume "exclude = Some e \<and> strip_string (string s) \<notin> e
        \<and> length (string s) \<le> max_len \<and> string s \<notin> set FP_STRINGS
        \<and> min_length \<le> int (length (strip_string (string s)))"
  then have "filter_candidate max_len min_length exclude s
      = Some \<lparr>string = strip_string (string s), offset = offset s, encoding = encoding s\<rparr>"
    by (auto simp: filter_candidate_cases)
  then show "candidates_loop max_len min_length exclude (pre @ s # post)
        = candidates_loop max_len min_length exclude pre
            @ \<lparr>string = strip_string (string s), offset = offset s, encoding = encoding s\<rparr>
            # candidates_loop max_len min_length exclude post"
    by (rule candidates_loop_yielded)
next
  assume "exclude = None
        \<and> length (string s) \<le> max_len \<and> string s \<notin> set FP_STRINGS
        \<and> min_length \<le> int (length (strip_string (string s)))"
  then have "filter_candidate max_len min_length exclude s
      = Some \<lparr>string = strip_string (string s), offset = offset s, encoding = encoding s\<rparr>"
    by (auto simp: filter_candidate_cases)
  then show "candidates_loop max_len min_length exclude (pre @ s # post)
        = candidates_loop max_len min_length exclude pre
            @ \<lparr>string = strip_string (string s), offset = offset s, encoding = encoding s\<rparr>
            # candidates_loop max_len min_length exclude post"
    by (rule candidates_loop_yielded)
qed

theorem C7_exclusion_set_witness:
  "strip_string ''0VAhello'' \<in> {''hello''} \<and>
   extract_strings extract_ascii_unicode_strings 2048 ''0VAhello'' 4 (Some {''hello''}) = [] \<and>
   strip_string ''0VAworld'' \<notin> {''hello''} \<and>
   extract_strings extract_ascii_unicode_strings 2048 ''0VAworld'' 4 (Some {''hello''})
     = [\<lparr>string = ''world'', offset = 0, encoding = ASCII\<rparr>] \<and>
   extract_strings extract_ascii_unicode_strings 2048 ''0VAhello'' 4 None
     = [\<lparr>string = ''hello'', offset = 0, encoding = ASCII\<rparr>]"
proof -
  have hello: "extract_ascii_unicode_strings ''0VAhello''
      = [\<lparr>string = ''0VAhello'', offset = 0, encoding = ASCII\<rparr>]"
    and world: "extract_ascii_unicode_strings ''0VAworld''
      = [\<lparr>string = ''0VAworld'', offset = 0, encoding = ASCII\<rparr>]"
    by code_simp+
  have strip_hello: "strip_string ''0VAhello'' = ''hello''"
    and strip_world: "strip_string ''0VAworld'' = ''world''"
    by code_simp+
  have allowed: "''0VAhello'' \<notin> set FP_STRINGS" "''0VAworld'' \<notin> set FP_STRINGS"
    by (simp_all add: FP_STRINGS_def)
  have dropped: "candidates_loop 2048 4 (Some {''hello''})
      [\<lparr>string = ''0VAhello'', offset = 0, encoding = ASCII\<rparr>] = []"
    using C7_exclusion_set
      [of "Some {''hello''}" "{''hello''}"
          "\<lparr>string = ''0VAhello'', offset = 0, encoding = ASCII\<rparr>" 2048 4 "[]" "[]",
       THEN conjunct1]
    by (simp add: strip_hello)
  have yielded: "candidates_loop 2048 4 (Some {''hello''})
      [\<lparr>string = ''0VAworld'', offset = 0, encoding = ASCII\<rparr>]
        = [\<lparr>string = ''world'', offset = 0, encoding = ASCII\<rparr>]"
    using C7_exclusion_set
      [of "Some {''hello''}" "{''hello''}"
          "\<lparr>string = ''0VAworld'', offset = 0, encoding = ASCII\<rparr>" 2048 4 "[]" "[]",
       THEN conjunct2, THEN conjunct1] allowed
    by (simp add: strip_world)
  have unfiltered: "candidates_loop 2048 4 None
      [\<lparr>string = ''0VAhello'', offset = 0, encoding = ASCII\<rparr>]
        = [\<lparr>string = ''hello'', offset = 0, encoding = ASCII\<rparr>]"
    using C7_exclusion_set
      [of None "{}"
          "\<lparr>string = ''0VAhello'', offset = 0, encoding = ASCII\<rparr>" 2048 4 "[]" "[]",
       THEN conjunct2, THEN conjunct2] allowed
    by (simp add: strip_hello)
  from dropped yielded unfiltered show ?thesis
    by (simp add: extract_strings_def strip_bytes_def hello world strip_hello strip_world)
qed


text \<open>
  C8. The sequence yielded by \<^verbatim>\<open>extract_strings\<close> is the sequence of the surviving
  candidates, in their order, each with its text replaced by the stripped text: offset
  and encoding are those of the candidate, also where stripping shortened the text.
\<close>

theorem C8_offset_and_encoding_preserved:
  "extract_strings extractor max_len buffer min_length exclude
     = map (\<lambda>s. s\<lparr>string := strip_string (string s)\<rparr>)
         (if int (length buffer) < min_length then []
          else filter (\<lambda>s. filter_candidate max_len min_length exclude s \<noteq> None)
                 (extractor buffer))"
proof -
  have "candidates_loop max_len min_length exclude cs
      = map (\<lambda>s. s\<lparr>string := strip_string (string s)\<rparr>)
          (filter (\<lambda>s. filter_candidate max_len min_length exclude s \<noteq> None) cs)" for cs
    by (induction cs) (simp_all add: filter_candidate_cases)
  then show ?thesis
    by (simp add: extract_strings_def strip_bytes_def)
qed

theorem C8_offset_and_encoding_preserved_witness:
  "extract_ascii_unicode_strings (CHR 0x01 # CHR 0x02 # ''0VAhello'')
     = [\<lparr>string = ''0VAhello'', offset = 2, encoding = ASCII\<rparr>] \<and>
   extract_strings extract_ascii_unicode_strings 2048 (CHR 0x01 # CHR 0x02 # ''0VAhello'') 4 None
     = [\<lparr>string = ''hello'', offset = 2, encoding = ASCII\<rparr>]"
proof -
  have cand: "extract_ascii_unicode_strings (CHR 0x01 # CHR 0x02 # ''0VAhello'')
     = [\<lparr>string = ''0VAhello'', offset = 2, encoding = ASCII\<rparr>]"
    by code_simp
  have strip: "strip_string ''0VAhello'' = ''hello''"
    by code_simp
  have kept: "filter_candidate 2048 4 None \<lparr>string = ''0VAhello'', offset = 2, encoding = ASCII\<rparr>
      \<noteq> None"
    by (simp add: filter_candidate_cases strip FP_STRINGS_def)
  from C8_offset_and_encoding_preserved
    [of extract_ascii_unicode_strings 2048 "CHR 0x01 # CHR 0x02 # ''0VAhello''" 4 None]
  have "extract_strings extract_ascii_unicode_strings 2048 (CHR 0x01 # CHR 0x02 # ''0VAhello'') 4 None
     = [\<lparr>string = ''hello'', offset = 2, encoding = ASCII\<rparr>]"
    by (simp add: cand kept strip)
  with cand show ?thesis by simp
qed

text \<open>
  C10. Inside \<^verbatim>\<open>extract_strings\<close> the pre-filter is disabled: \<^verbatim>\<open>strip_bytes\<close> with
  the flag \<^verbatim>\<open>False\<close> returns the buffer as it is, and the extractor is run on the
  caller's buffer. \<^verbatim>\<open>extract_strings\<close> has no parameter for the flag.
\<close>

theorem C10_pre_filter_is_disabled:
  "strip_bytes buffer False = buffer \<and>
   extract_strings extractor max_len buffer min_length exclude
     = (if int (length buffer) < min_length then []
        else candidates_loop max_len min_length exclude (extractor buffer))"
  by (simp add: extract_strings_def strip_bytes_def)

theorem C10_pre_filter_is_disabled_witness:
  "strip_bytes ''helloAAAAAworld'' True = ''hello'' @ [CHR 0x00, CHR 0x00] @ ''world'' \<and>
   strip_bytes ''helloAAAAAworld'' False = ''helloAAAAAworld'' \<and>
   extract_strings extract_ascii_unicode_strings 2048 ''helloAAAAAworld'' 4 None
     = [\<lparr>string = ''helloAAAAAworld'', offset = 0, encoding = ASCII\<rparr>]"
proof -
  have on: "strip_bytes ''helloAAAAAworld'' True = ''hello'' @ [CHR 0x00, CHR 0x00] @ ''world''"
    by code_simp
  have loop: "candidates_loop 2048 4 None (extract_ascii_unicode_strings ''helloAAAAAworld'')
     = [\<lparr>string = ''helloAAAAAworld'', offset = 0, encoding = ASCII\<rparr>]"
    by code_simp
  from C10_pre_filter_is_disabled
    [of "''helloAAAAAworld''" extract_ascii_unicode_strings 2048 4 None] on loop
  show ?thesis by simp
qed

end
